theory Spec2Isabelle
  imports Main
begin

section \<open>Data model: the tables of the first migration\<close>

text \<open>
  Identifiers are UUIDs in the database; they are opaque and only compared for equality,
  so they are modelled as natural numbers. Timestamps (TIMESTAMP WITH TIME ZONE) are
  points on a line, modelled as integers.
\<close>

type_synonym uuid = nat
type_synonym timestamp = int

text \<open>
  \<^verbatim>\<open>status TEXT NOT NULL DEFAULT 'pending'
     CHECK (status IN ('pending', 'processing', 'completed', 'failed'))\<close>
\<close>

datatype status = Pending | Processing | Completed | Failed

text \<open>
  A row of \<^verbatim>\<open>public.form_submissions\<close>. The columns \<^verbatim>\<open>id\<close>,
  \<^verbatim>\<open>created_at\<close> and \<^verbatim>\<open>updated_at\<close> carry the suffix \<open>_fs\<close>
  (\<open>id\<close> is a constant of HOL, and the profiles table has columns of the same names).
  The table has exactly these eight columns.
\<close>

record form_submission =
  id_fs :: uuid
  user_id :: uuid
  form_url :: string
  scheduled_time :: timestamp
  status :: status
  error_message :: "string option"
  created_at_fs :: "timestamp option"
  updated_at_fs :: "timestamp option"

text \<open>
  A row of \<^verbatim>\<open>public.profiles\<close> (columns \<^verbatim>\<open>id\<close>, \<^verbatim>\<open>created_at\<close>,
  \<^verbatim>\<open>updated_at\<close> with the suffix \<open>_pr\<close>).
\<close>

record profile =
  id_pr :: uuid
  email :: string
  full_name :: string
  college :: string
  year :: string
  created_at_pr :: "timestamp option"
  updated_at_pr :: "timestamp option"

text \<open>
  The table, as the list of its rows in the order a scan of the table yields them.
  No query of the edge function asks for an ordering.
\<close>

type_synonym store = "form_submission list"

section \<open>Row-level security on form\_submissions\<close>

text \<open>
  The credential a request carries: the service-role key (which bypasses row-level
  security), the token of a signed-in user, or the anonymous key.
  \<^verbatim>\<open>auth.uid()\<close> is the user's id for a signed-in user and NULL otherwise.
\<close>

datatype credential = ServiceRole | Authenticated uuid | Anon

fun auth_uid :: "credential \<Rightarrow> uuid option" where
  "auth_uid (Authenticated u) = Some u"
| "auth_uid ServiceRole = None"
| "auth_uid Anon = None"

text \<open>
  All four policies on form\_submissions have the same expression,
  \<^verbatim>\<open>auth.uid() = user_id\<close>; a comparison with NULL is not true.
\<close>

definition policy_own :: "credential \<Rightarrow> form_submission \<Rightarrow> bool" where
  "policy_own c r = (auth_uid c = Some (user_id r))"

definition passes_rls :: "credential \<Rightarrow> form_submission \<Rightarrow> bool" where
  "passes_rls c r = (c = ServiceRole \<or> policy_own c r)"

datatype db_error =
    RlsViolation | NotNullViolation | UniqueViolation | ForeignKeyViolation | CheckViolation

text \<open>
  \<^verbatim>\<open>.from('form_submissions').select('*')\<close> with filters \<open>P\<close>: every row
  that passes the policy and the filters, since the code gives no range, limit or order.
\<close>

definition select_rows :: "credential \<Rightarrow> (form_submission \<Rightarrow> bool) \<Rightarrow> store \<Rightarrow> form_submission list" where
  "select_rows c P s = filter (\<lambda>r. passes_rls c r \<and> P r) s"

text \<open>
  \<^verbatim>\<open>.update(values)\<close> with filters \<open>P\<close>, at database time \<open>t\<close>. The policy's
  USING expression selects the rows, and (no WITH CHECK being given) also checks the new
  rows. The trigger \<^verbatim>\<open>set_updated_at_form_submissions\<close> runs
  \<^verbatim>\<open>handle_updated_at\<close> before every row update:
  \<^verbatim>\<open>NEW.updated_at = now()\<close>.
\<close>

definition handle_updated_at :: "timestamp \<Rightarrow> form_submission \<Rightarrow> form_submission" where
  "handle_updated_at t new = new\<lparr>updated_at_fs := Some t\<rparr>"

definition update_rows ::
  "credential \<Rightarrow> (form_submission \<Rightarrow> bool) \<Rightarrow> (form_submission \<Rightarrow> form_submission) \<Rightarrow>
   timestamp \<Rightarrow> store \<Rightarrow> db_error + store" where
  "update_rows c P f t s =
     (if \<exists>r \<in> set s. passes_rls c r \<and> P r \<and> \<not> passes_rls c (handle_updated_at t (f r))
      then Inl RlsViolation
      else Inr (map (\<lambda>r. if passes_rls c r \<and> P r then handle_updated_at t (f r) else r) s))"



section \<open>The edge function check-pending-forms\<close>

text \<open>
  What a \<^verbatim>\<open>throw\<close> carries: an object that is an \<^verbatim>\<open>instanceof Error\<close>
  (with its message), or any other value.
\<close>

datatype thrown = ErrorObject string | OtherValue

text \<open>
  What one run of the handler takes from outside: the clock reading of line 20, whether
  the store answers the select with an error, whether the update request fails, and the
  database's clock when the update runs. The environment variables are taken as set.
\<close>

record io =
  now :: timestamp
  select_error :: "thrown option"
  update_fails :: bool
  update_time :: timestamp

datatype body =
    NullBody
  | SuccessBody (pendingForms: "form_submission list") (count: nat)
  | ErrorBody (error: string)

record response =
  status_code :: nat
  headers :: "(string \<times> string) list"
  body :: body

definition corsHeaders :: "(string \<times> string) list" where
  "corsHeaders =
     [(''Access-Control-Allow-Origin'', ''*''),
      (''Access-Control-Allow-Headers'', ''authorization, x-client-info, apikey, content-type'')]"

definition json_headers :: "(string \<times> string) list" where
  "json_headers = corsHeaders @ [(''Content-Type'', ''application/json'')]"

text \<open>
  Lines 21 to 25: the select with the service-role client,
  \<^verbatim>\<open>.eq('status', 'pending').lte('scheduled_time', now)\<close>.
\<close>

definition select_pending :: "timestamp \<Rightarrow> store \<Rightarrow> form_submission list" where
  "select_pending n s =
     select_rows ServiceRole (\<lambda>r. status r = Pending \<and> scheduled_time r \<le> n) s"

text \<open>The pair \<^verbatim>\<open>{ data: pendingForms, error }\<close> the select resolves to.\<close>

definition read_phase :: "io \<Rightarrow> store \<Rightarrow> form_submission list option \<times> thrown option" where
  "read_phase e s =
     (case select_error e of
        Some err \<Rightarrow> (None, Some err)
      | None \<Rightarrow> (Some (select_pending (now e) s), None))"

text \<open>
  Lines 37 to 40: \<^verbatim>\<open>.update({ status: 'processing' }).in('id', formIds)\<close>, with
  the service-role client. The only filter is on the id.
\<close>

definition batch_update :: "uuid list \<Rightarrow> timestamp \<Rightarrow> store \<Rightarrow> db_error + store" where
  "batch_update formIds t s =
     update_rows ServiceRole (\<lambda>r. id_fs r \<in> set formIds) (\<lambda>r. r\<lparr>status := Processing\<rparr>) t s"

text \<open>
  Lines 35 to 41. The result of the awaited update is not looked at: when the request
  fails, or the database refuses it, the store is as it was and the handler goes on.
\<close>

definition write_phase :: "io \<Rightarrow> form_submission list option \<Rightarrow> store \<Rightarrow> store" where
  "write_phase e pf s =
     (case pf of
        None \<Rightarrow> s
      | Some forms \<Rightarrow>
          if length forms > 0 then
            (if update_fails e then s
             else (case batch_update (map id_fs forms) (update_time e) s of
                     Inl _ \<Rightarrow> s
                   | Inr s' \<Rightarrow> s'))
          else s)"

text \<open>Lines 43 to 53: \<^verbatim>\<open>pendingForms || []\<close> and \<^verbatim>\<open>pendingForms?.length || 0\<close>.\<close>

definition ok_response :: "form_submission list option \<Rightarrow> response" where
  "ok_response pf =
     \<lparr>status_code = 200, headers = json_headers,
      body = SuccessBody (case pf of None \<Rightarrow> [] | Some forms \<Rightarrow> forms)
                         (case pf of None \<Rightarrow> 0 | Some forms \<Rightarrow> length forms)\<rparr>"

text \<open>Lines 54 to 65: the catch block.\<close>

definition error_response :: "thrown \<Rightarrow> response" where
  "error_response err =
     \<lparr>status_code = 500, headers = json_headers,
      body = ErrorBody (case err of ErrorObject m \<Rightarrow> m | OtherValue \<Rightarrow> ''Unknown error'')\<rparr>"

text \<open>
  The handler given to \<^verbatim>\<open>serve\<close>, as one uninterrupted run on the store: the
  response and the store afterwards. A \<^verbatim>\<open>Response\<close> built without a status has
  status 200.
\<close>

definition check_pending_forms :: "string \<Rightarrow> io \<Rightarrow> store \<Rightarrow> response \<times> store" where
  "check_pending_forms req_method e s =
     (if req_method = ''OPTIONS'' then
        (\<lparr>status_code = 200, headers = corsHeaders, body = NullBody\<rparr>, s)
      else
        (case read_phase e s of
           (_, Some err) \<Rightarrow> (error_response err, s)
         | (pf, None) \<Rightarrow> (ok_response pf, write_phase e pf s)))"

text \<open>
  A request to the endpoint: its method and the credential of its
  \<^verbatim>\<open>Authorization\<close> header. The handler reads \<^verbatim>\<open>req.method\<close> and nothing
  else of the request: whoever calls, the store is reached with the service-role client
  of lines 15 to 17.
\<close>

record request =
  http_method :: string
  authorization :: credential


section \<open>Runs of the handler, one after the other and overlapping\<close>

text \<open>
  Runs that do not overlap: each is one call of the handler on the store the previous
  one left.
\<close>

fun run_cycles :: "(string \<times> io) list \<Rightarrow> store \<Rightarrow> store" where
  "run_cycles [] s = s"
| "run_cycles ((m, e) # rest) s = run_cycles rest (snd (check_pending_forms m e s))"

text \<open>
  The handler awaits the store twice, and the store is shared: between the select and the
  update of one run, other requests reach the store. An event is the select of run \<open>p\<close>,
  the update of run \<open>p\<close>, or a status update of one row by another client of the store
  (\<^verbatim>\<open>.update({ status }).eq('id', id)\<close> under that client's credential; the policy
  "Users can update their own submissions" admits it for the row's owner). Each run keeps
  its own \<^verbatim>\<open>pendingForms\<close>.
\<close>

datatype event = ReadBy nat | WriteBy nat | StatusUpdate credential uuid status timestamp

type_synonym locals = "nat \<rightharpoonup> form_submission list option"

fun exec :: "(nat \<Rightarrow> io) \<Rightarrow> event \<Rightarrow> locals \<times> store \<Rightarrow> locals \<times> store" where
  "exec ios (ReadBy p) (loc, s) =
     (case read_phase (ios p) s of
        (_, Some err) \<Rightarrow> (loc(p := None), s)
      | (pf, None) \<Rightarrow> (loc(p \<mapsto> pf), s))"
| "exec ios (WriteBy p) (loc, s) =
     (case loc p of
        None \<Rightarrow> (loc, s)
      | Some pf \<Rightarrow> (loc, write_phase (ios p) pf s))"
| "exec ios (StatusUpdate c i st t) (loc, s) =
     (case update_rows c (\<lambda>r. id_fs r = i) (\<lambda>r. r\<lparr>status := st\<rparr>) t s of
        Inl _ \<Rightarrow> (loc, s)
      | Inr s' \<Rightarrow> (loc, s'))"

fun run :: "(nat \<Rightarrow> io) \<Rightarrow> event list \<Rightarrow> locals \<times> store \<Rightarrow> locals \<times> store" where
  "run ios [] cfg = cfg"
| "run ios (ev # evs) cfg = run ios evs (exec ios ev cfg)"

text \<open>The events that are steps of the handler itself.\<close>

fun handler_event :: "event \<Rightarrow> bool" where
  "handler_event (ReadBy p) = True"
| "handler_event (WriteBy p) = True"
| "handler_event (StatusUpdate c i st t) = False"

text \<open>The ids a response lists: what the caller of the endpoint goes on to process.\<close>

definition listed_ids :: "response \<Rightarrow> uuid list" where
  "listed_ids resp =
     (case body resp of SuccessBody forms _ \<Rightarrow> map id_fs forms | _ \<Rightarrow> [])"

text \<open>
  The response of run \<open>p\<close> once its select has returned without error: it is built
  from the run's own \<^verbatim>\<open>pendingForms\<close>, whatever the store holds by then.
\<close>

definition response_of :: "locals \<Rightarrow> nat \<Rightarrow> response option" where
  "response_of loc p = map_option ok_response (loc p)"

section \<open>Profiles and the signup trigger\<close>

definition COLLEGES :: "string list" where
  "COLLEGES =
     [''Baker College'', ''Will Rice College'', ''Hanszen College'', ''Wiess College'',
      ''Jones College'', ''Brown College'', ''Lovett College'', ''Sid Richardson College'',
      ''Martel College'', ''McMurtry College'', ''Duncan College'']"

definition YEARS :: "string list" where
  "YEARS = [''Freshman'', ''Sophomore'', ''Junior'', ''Senior'']"

text \<open>The two CHECK constraints of the profiles table.\<close>

definition college_check :: "profile \<Rightarrow> bool" where
  "college_check p = (college p \<in> set COLLEGES)"

definition year_check :: "profile \<Rightarrow> bool" where
  "year_check p = (year p \<in> set YEARS)"

text \<open>
  The columns of the new \<^verbatim>\<open>auth.users\<close> row the trigger reads. The metadata is a
  JSON object or NULL; it is modelled by what \<^verbatim>\<open>->>\<close> reads from it: the text
  at a key, or nothing where the key is absent or holds JSON null.
\<close>

record auth_user =
  id_au :: uuid
  email_au :: "string option"
  raw_user_meta_data :: "(string \<rightharpoonup> string) option"

definition json_text :: "(string \<rightharpoonup> string) option \<Rightarrow> string \<Rightarrow> string option" where
  "json_text j k = (case j of None \<Rightarrow> None | Some obj \<Rightarrow> obj k)"

definition COALESCE :: "'a option \<Rightarrow> 'a \<Rightarrow> 'a" where
  "COALESCE v d = (case v of None \<Rightarrow> d | Some x \<Rightarrow> x)"

text \<open>
  \<^verbatim>\<open>handle_new_user\<close>, run after the insert of \<open>new\<close> into auth.users at database
  time \<open>t\<close>: the INSERT into profiles, with the table's constraints (NOT NULL on email,
  the two CHECKs, the primary key). \<^verbatim>\<open>created_at\<close> and \<^verbatim>\<open>updated_at\<close> take
  their default \<^verbatim>\<open>now()\<close>. An error aborts the statement that created the user.
\<close>

definition new_profile_row :: "timestamp \<Rightarrow> auth_user \<Rightarrow> string \<Rightarrow> profile" where
  "new_profile_row t new em =
     \<lparr>id_pr = id_au new, email = em,
      full_name = COALESCE (json_text (raw_user_meta_data new) ''full_name'') '''',
      college = COALESCE (json_text (raw_user_meta_data new) ''college'') ''Baker College'',
      year = COALESCE (json_text (raw_user_meta_data new) ''year'') ''Freshman'',
      created_at_pr = Some t, updated_at_pr = Some t\<rparr>"

definition handle_new_user :: "timestamp \<Rightarrow> auth_user \<Rightarrow> profile list \<Rightarrow> db_error + profile list" where
  "handle_new_user t new profiles =
     (case email_au new of
        None \<Rightarrow> Inl NotNullViolation
      | Some em \<Rightarrow>
          let row = new_profile_row t new em
          in if \<not> (college_check row \<and> year_check row) then Inl CheckViolation
             else if id_pr row \<in> set (map id_pr profiles) then Inl UniqueViolation
             else Inr (profiles @ [row]))"

text \<open>
  The \<^verbatim>\<open>auth.users\<close> row of a sign-up through the Auth page:
  \<^verbatim>\<open>supabase.auth.signUp({ email, password, options: { emailRedirectTo } })\<close> passes
  no \<^verbatim>\<open>options.data\<close>, so the metadata holds none of the keys the trigger reads.
\<close>

definition signUp_user :: "uuid \<Rightarrow> string \<Rightarrow> auth_user" where
  "signUp_user i em = \<lparr>id_au = i, email_au = Some em, raw_user_meta_data = Some Map.empty\<rparr>"

section \<open>Example data\<close>

text \<open>
  A row as the dashboard's insert leaves it (no error message), with id \<open>i\<close>, owner
  \<open>u\<close>, due time \<open>t\<close> and status \<open>st\<close>; and the environment of a run in which the
  store answers both requests, with clock reading \<open>n\<close> and update time \<open>t\<close>;
  and the profile of user \<open>u\<close>.
\<close>

definition example_job :: "uuid \<Rightarrow> uuid \<Rightarrow> timestamp \<Rightarrow> status \<Rightarrow> form_submission" where
  "example_job i u t st =
     \<lparr>id_fs = i, user_id = u, form_url = ''https://docs.google.com/forms/d/e/1'',
      scheduled_time = t, status = st, error_message = None,
      created_at_fs = Some 0, updated_at_fs = Some 0\<rparr>"


definition example_io :: "timestamp \<Rightarrow> timestamp \<Rightarrow> io" where
  "example_io n t = \<lparr>now = n, select_error = None, update_fails = False, update_time = t\<rparr>"

section \<open>Facts about one run of the handler\<close>

text \<open>The service-role client is not filtered by the policies.\<close>

lemma select_pending_eq:
  "select_pending n s = filter (\<lambda>r. status r = Pending \<and> scheduled_time r \<le> n) s"
  by (simp add: select_pending_def select_rows_def passes_rls_def)

lemma batch_update_eq:
  "batch_update ids t s =
     Inr (map (\<lambda>r. if id_fs r \<in> set ids
                    then r\<lparr>status := Processing, updated_at_fs := Some t\<rparr> else r) s)"
  by (simp add: batch_update_def update_rows_def passes_rls_def handle_updated_at_def)

lemma write_phase_eq:
  "write_phase e (Some forms) s =
     (if update_fails e then s
      else map (\<lambda>r. if id_fs r \<in> id_fs ` set forms
                     then r\<lparr>status := Processing, updated_at_fs := Some (update_time e)\<rparr>
                     else r) s)"
proof (cases "forms = []")
  case True
  then show ?thesis by (simp add: write_phase_def)
next
  case False
  then show ?thesis by (simp add: write_phase_def batch_update_eq)
qed

lemma cycle_response:
  "fst (check_pending_forms m e s) =
     (if m = ''OPTIONS'' then \<lparr>status_code = 200, headers = corsHeaders, body = NullBody\<rparr>
      else case select_error e of
             Some err \<Rightarrow> error_response err
           | None \<Rightarrow> ok_response (Some (select_pending (now e) s)))"
  by (simp add: check_pending_forms_def read_phase_def split: option.splits)

lemma cycle_store:
  "snd (check_pending_forms m e s) =
     (if m = ''OPTIONS'' \<or> select_error e \<noteq> None \<or> update_fails e then s
      else map (\<lambda>r. if id_fs r \<in> id_fs ` set (select_pending (now e) s)
                     then r\<lparr>status := Processing, updated_at_fs := Some (update_time e)\<rparr>
                     else r) s)"
  by (auto simp add: check_pending_forms_def read_phase_def write_phase_eq split: option.splits)

lemma listed_ids_cycle:
  "listed_ids (fst (check_pending_forms m e s)) =
     (if m = ''OPTIONS'' \<or> select_error e \<noteq> None then []
      else map id_fs (select_pending (now e) s))"
  by (auto simp add: cycle_response listed_ids_def ok_response_def error_response_def
      split: option.splits)

lemma cycle_ids: "map id_fs (snd (check_pending_forms m e s)) = map id_fs s"
  by (simp add: cycle_store comp_def)

lemma same_id_same_row:
  assumes "distinct (map id_fs s)" and "r \<in> set s" and "r' \<in> set s" and "id_fs r' = id_fs r"
  shows "r' = r"
  using assms by (meson distinct_map inj_onD)

lemma cycle_keeps_non_pending:
  assumes "distinct (map id_fs s)" and "r \<in> set s" and "status r \<noteq> Pending"
  shows "r \<in> set (snd (check_pending_forms m e s))"
proof -
  have "id_fs r \<notin> id_fs ` set (select_pending (now e) s)"
  proof
    assume "id_fs r \<in> id_fs ` set (select_pending (now e) s)"
    then obtain r' where r': "r' \<in> set s" "status r' = Pending" "id_fs r' = id_fs r"
      by (auto simp add: select_pending_eq)
    from assms(1) assms(2) r'(1) r'(3) have "r' = r"
      by (rule same_id_same_row)
    with r'(2) assms(3) show False by simp
  qed
  with assms(2) show ?thesis
    by (force simp add: cycle_store)
qed

lemma run_cycles_ids: "map id_fs (run_cycles cs s) = map id_fs s"
  by (induction cs s rule: run_cycles.induct) (simp_all add: cycle_ids)

lemma run_cycles_keeps_non_pending:
  assumes "distinct (map id_fs s)" and "r \<in> set s" and "status r \<noteq> Pending"
  shows "r \<in> set (run_cycles cs s)"
  using assms
proof (induction cs arbitrary: s)
  case Nil
  then show ?case by simp
next
  case (Cons c cs)
  obtain m e where c: "c = (m, e)" by (cases c)
  have "distinct (map id_fs (snd (check_pending_forms m e s)))"
    using Cons.prems(1) by (simp add: cycle_ids)
  moreover have "r \<in> set (snd (check_pending_forms m e s))"
    using Cons.prems by (rule cycle_keeps_non_pending)
  ultimately show ?case
    using Cons.IH Cons.prems(3) c by simp
qed

section \<open>The due-jobs query (claim C2)\<close>

text \<open>
  C2, as the spec states it, asks for the due rows ordered by due time. The select of the
  handler has no ordering clause: with two due rows stored in the order (due at 9, due at
  3), the result at time 10 is in that order, and not sorted by due time.
\<close>

theorem select_pending_not_sorted:
  "select_pending 10 [example_job 1 7 9 Pending, example_job 2 8 3 Pending]
     = [example_job 1 7 9 Pending, example_job 2 8 3 Pending]
   \<and> map scheduled_time
        (select_pending 10 [example_job 1 7 9 Pending, example_job 2 8 3 Pending]) = [9, 3]
   \<and> \<not> sorted (map scheduled_time
        (select_pending 10 [example_job 1 7 9 Pending, example_job 2 8 3 Pending]))"
  by (simp add: select_pending_eq example_job_def)

text \<open>
  C2, amended: for every store and every time \<open>n\<close>, the query of the claim cycle returns
  exactly the rows with status pending and scheduled\_time at most \<open>n\<close> (none that is due
  later, none left out), in the order the table scan yields them.
\<close>

theorem select_pending_exact_in_scan_order:
  "(\<forall>r. r \<in> set (select_pending n s)
         \<longleftrightarrow> r \<in> set s \<and> status r = Pending \<and> scheduled_time r \<le> n)
   \<and> select_pending n s = filter (\<lambda>r. status r = Pending \<and> scheduled_time r \<le> n) s"
  by (auto simp add: select_pending_eq)

section \<open>A failed update (claim C7)\<close>

text \<open>
  C7: every error during the cycle resolves to an explicit error result, never to a
  silently swallowed failure. The handler checks the select's error, but not the
  update's. At this input the select finds one due job and the update request fails:
  the response is 200 with success and the job listed, and the store still holds the job
  as pending.
\<close>

theorem failed_update_reported_as_success:
  "check_pending_forms ''GET''
       \<lparr>now = 10, select_error = None, update_fails = True, update_time = 11\<rparr>
       [example_job 1 7 9 Pending]
     = (\<lparr>status_code = 200, headers = json_headers,
         body = SuccessBody [example_job 1 7 9 Pending] 1\<rparr>,
        [example_job 1 7 9 Pending])"
  by (simp add: check_pending_forms_def read_phase_def write_phase_def ok_response_def
      select_pending_eq example_job_def)

section \<open>The response (claim C9)\<close>

text \<open>
  C9, as stated, covers every run that ends without a thrown error. A preflight request
  (method OPTIONS) ends without one, before the store is read: its response has status
  200 and no body, and the store is untouched.
\<close>

theorem options_response_has_null_body:
  "check_pending_forms ''OPTIONS'' (example_io 10 11) [example_job 1 7 9 Pending]
     = (\<lparr>status_code = 200, headers = corsHeaders, body = NullBody\<rparr>,
        [example_job 1 7 9 Pending])"
  by (simp add: check_pending_forms_def)

text \<open>
  C9, amended: for every request whose method is not OPTIONS, when the select returns no
  error the response has status 200 and the body \<open>{success: true, pendingForms, count}\<close>
  where pendingForms are the rows as the select read them (each a row of the store with
  status pending) and count is their number; and when the update goes through, the store
  afterwards holds each of these rows with status processing.
\<close>

theorem non_options_success_response:
  assumes "req_method \<noteq> ''OPTIONS''" and "select_error e = None"
  shows "fst (check_pending_forms req_method e s) =
           \<lparr>status_code = 200, headers = json_headers,
            body = SuccessBody (select_pending (now e) s) (length (select_pending (now e) s))\<rparr>
         \<and> (\<forall>r \<in> set (select_pending (now e) s). r \<in> set s \<and> status r = Pending)
         \<and> (\<not> update_fails e \<longrightarrow>
              (\<forall>r \<in> set (select_pending (now e) s).
                 r\<lparr>status := Processing, updated_at_fs := Some (update_time e)\<rparr>
                   \<in> set (snd (check_pending_forms req_method e s))))"
proof -
  have a: "fst (check_pending_forms req_method e s) =
           \<lparr>status_code = 200, headers = json_headers,
            body = SuccessBody (select_pending (now e) s) (length (select_pending (now e) s))\<rparr>"
    using assms by (simp add: cycle_response ok_response_def)
  have b: "\<forall>r \<in> set (select_pending (now e) s). r \<in> set s \<and> status r = Pending"
    by (simp add: select_pending_eq)
  have c: "r\<lparr>status := Processing, updated_at_fs := Some (update_time e)\<rparr>
             \<in> set (snd (check_pending_forms req_method e s))"
    if u: "\<not> update_fails e" and r: "r \<in> set (select_pending (now e) s)" for r
  proof -
    from r have "r \<in> set s" by (simp add: select_pending_eq)
    with r u assms show ?thesis by (force simp add: cycle_store)
  qed
  from a b c show ?thesis by blast
qed

theorem non_options_success_response_witness:
  "''GET'' \<noteq> ''OPTIONS'' \<and> select_error (example_io 10 11) = None
   \<and> fst (check_pending_forms ''GET'' (example_io 10 11)
        [example_job 1 7 9 Pending, example_job 2 8 30 Pending]) =
       \<lparr>status_code = 200, headers = json_headers,
        body = SuccessBody [example_job 1 7 9 Pending] 1\<rparr>
   \<and> snd (check_pending_forms ''GET'' (example_io 10 11)
        [example_job 1 7 9 Pending, example_job 2 8 30 Pending]) =
       [(example_job 1 7 9 Pending)\<lparr>status := Processing, updated_at_fs := Some 11\<rparr>,
        example_job 2 8 30 Pending]"
  using non_options_success_response
    [of "''GET''" "example_io 10 11" "[example_job 1 7 9 Pending, example_job 2 8 30 Pending]"]
  by (simp add: example_job_def example_io_def select_pending_eq cycle_store)

section \<open>Two runs on one job (claim C1)\<close>

text \<open>A run alone on the store, as events, is the handler.\<close>

lemma run_alone_is_handler:
  assumes "m \<noteq> ''OPTIONS''" and "select_error (ios p) = None"
  shows "snd (run ios [ReadBy p, WriteBy p] (loc, s)) = snd (check_pending_forms m (ios p) s)"
    and "response_of (fst (run ios [ReadBy p, WriteBy p] (loc, s))) p
           = Some (fst (check_pending_forms m (ios p) s))"
  using assms
  by (simp_all add: check_pending_forms_def read_phase_def response_of_def)

lemma later_cycle_lists_none_of_earlier:
  assumes "\<not> update_fails ea"
  shows "set (listed_ids (fst (check_pending_forms mb eb (snd (check_pending_forms ma ea s)))))
           \<inter> set (listed_ids (fst (check_pending_forms ma ea s))) = {}"
proof (cases "ma = ''OPTIONS'' \<or> select_error ea \<noteq> None")
  case True
  then show ?thesis by (simp add: listed_ids_cycle)
next
  case False
  let ?ids = "id_fs ` set (select_pending (now ea) s)"
  let ?s1 = "snd (check_pending_forms ma ea s)"
  have s1: "?s1 = map (\<lambda>r. if id_fs r \<in> ?ids
                     then r\<lparr>status := Processing, updated_at_fs := Some (update_time ea)\<rparr>
                     else r) s"
    using False assms by (simp add: cycle_store)
  have "id_fs r' \<notin> ?ids" if "r' \<in> set ?s1" and "status r' = Pending" for r'
    using that unfolding s1 by (auto split: if_splits)
  then have d: "id_fs ` set (select_pending (now eb) ?s1) \<inter> ?ids = {}"
    by (auto simp add: select_pending_eq)
  have l1: "set (listed_ids (fst (check_pending_forms ma ea s))) = ?ids"
    using False by (simp add: listed_ids_cycle)
  have l2: "set (listed_ids (fst (check_pending_forms mb eb ?s1)))
                   \<subseteq> id_fs ` set (select_pending (now eb) ?s1)"
    by (simp add: listed_ids_cycle)
  have "A \<inter> C = {}" if "B \<inter> C = {}" and "A \<subseteq> B" for A B C :: "uuid set"
    using that by auto
  from this [OF d l2] show ?thesis unfolding l1 .
qed

lemma overlapping_runs:
  assumes "p \<noteq> q" and "select_error (ios p) = None" and "select_error (ios q) = None"
  shows "fst (run ios [ReadBy p, ReadBy q, WriteBy p, WriteBy q] (loc, s)) p
           = Some (Some (select_pending (now (ios p)) s))"
    and "fst (run ios [ReadBy p, ReadBy q, WriteBy p, WriteBy q] (loc, s)) q
           = Some (Some (select_pending (now (ios q)) s))"
    and "snd (run ios [ReadBy p, ReadBy q, WriteBy p, WriteBy q] (loc, s))
           = write_phase (ios q) (Some (select_pending (now (ios q)) s))
               (write_phase (ios p) (Some (select_pending (now (ios p)) s)) s)"
  using assms by (simp_all add: read_phase_def)

lemma two_updates:
  assumes "\<not> update_fails ep" and "\<not> update_fails eq"
  shows "write_phase eq (Some fq) (write_phase ep (Some fp) s)
          = map (\<lambda>r. if id_fs r \<in> id_fs ` set fq
                      then r\<lparr>status := Processing, updated_at_fs := Some (update_time eq)\<rparr>
                      else if id_fs r \<in> id_fs ` set fp
                      then r\<lparr>status := Processing, updated_at_fs := Some (update_time ep)\<rparr>
                      else r) s"
  using assms by (simp add: write_phase_eq)

text \<open>
  C1, as the spec states it, makes each claim a conditional update that succeeds only
  while the job is still pending, so that a losing attempt changes nothing and drops the
  job. The update of the handler filters on the id alone. Two runs read the same pending
  job before either updates it: after the first update the job is processing, the second
  update is applied all the same (it rewrites the row, \<open>updated_at\<close> moves from 11 to
  12), and both responses list the job.
\<close>

theorem racing_cycles_both_claim:
  "snd (run (\<lambda>p. example_io 10 (11 + int p)) [ReadBy 0, ReadBy 1, WriteBy 0]
          (Map.empty, [example_job 1 7 9 Pending]))
     = [(example_job 1 7 9 Pending)\<lparr>status := Processing, updated_at_fs := Some 11\<rparr>]
   \<and> snd (run (\<lambda>p. example_io 10 (11 + int p)) [ReadBy 0, ReadBy 1, WriteBy 0, WriteBy 1]
          (Map.empty, [example_job 1 7 9 Pending]))
     = [(example_job 1 7 9 Pending)\<lparr>status := Processing, updated_at_fs := Some 12\<rparr>]
   \<and> map_option listed_ids
        (response_of (fst (run (\<lambda>p. example_io 10 (11 + int p))
           [ReadBy 0, ReadBy 1, WriteBy 0, WriteBy 1]
           (Map.empty, [example_job 1 7 9 Pending]))) 0) = Some [1]
   \<and> map_option listed_ids
        (response_of (fst (run (\<lambda>p. example_io 10 (11 + int p))
           [ReadBy 0, ReadBy 1, WriteBy 0, WriteBy 1]
           (Map.empty, [example_job 1 7 9 Pending]))) 1) = Some [1]"
  by (simp add: read_phase_def write_phase_eq select_pending_eq response_of_def listed_ids_def
      ok_response_def example_job_def example_io_def)

text \<open>
  C1, amended: claims are exclusive between runs that do not overlap. When the update of
  a run is not a failed request, a run on the store it leaves lists none of the jobs the
  first one listed. When two runs both select before either updates, each responds with
  all the rows it read, and both updates are applied in turn, to every row whose id was
  read, whatever its status by then.
\<close>

theorem claims_exclusive_without_overlap:
  "(\<not> update_fails ea \<longrightarrow>
      set (listed_ids (fst (check_pending_forms mb eb (snd (check_pending_forms ma ea s)))))
        \<inter> set (listed_ids (fst (check_pending_forms ma ea s))) = {})
   \<and> (p \<noteq> q \<and> select_error (ios p) = None \<and> select_error (ios q) = None
        \<and> \<not> update_fails (ios p) \<and> \<not> update_fails (ios q) \<longrightarrow>
        response_of (fst (run ios [ReadBy p, ReadBy q, WriteBy p, WriteBy q] (loc, s))) p
          = Some (ok_response (Some (select_pending (now (ios p)) s)))
      \<and> response_of (fst (run ios [ReadBy p, ReadBy q, WriteBy p, WriteBy q] (loc, s))) q
          = Some (ok_response (Some (select_pending (now (ios q)) s)))
      \<and> snd (run ios [ReadBy p, ReadBy q, WriteBy p, WriteBy q] (loc, s))
          = map (\<lambda>r. if id_fs r \<in> id_fs ` set (select_pending (now (ios q)) s)
                      then r\<lparr>status := Processing, updated_at_fs := Some (update_time (ios q))\<rparr>
                      else if id_fs r \<in> id_fs ` set (select_pending (now (ios p)) s)
                      then r\<lparr>status := Processing, updated_at_fs := Some (update_time (ios p))\<rparr>
                      else r) s)"
  (is "?sequential \<and> (?overlap \<longrightarrow> ?both)")
proof (rule conjI)
  show ?sequential
    by (rule impI) (rule later_cycle_lists_none_of_earlier)
next
  show "?overlap \<longrightarrow> ?both"
  proof (rule impI)
    assume h: ?overlap
    then have pq: "p \<noteq> q" and sp: "select_error (ios p) = None"
      and sq: "select_error (ios q) = None"
      and up: "\<not> update_fails (ios p)" and uq: "\<not> update_fails (ios q)"
      by simp_all
    note o = overlapping_runs [OF pq sp sq, of loc s]
    show ?both
      by (simp only: response_of_def o two_updates [OF up uq] option.map simp_thms)
  qed
qed

theorem claims_exclusive_without_overlap_witness:
  "\<not> update_fails (example_io 10 11)
   \<and> listed_ids (fst (check_pending_forms ''GET'' (example_io 10 11)
        [example_job 1 7 9 Pending, example_job 2 8 15 Pending])) = [1]
   \<and> listed_ids (fst (check_pending_forms ''GET'' (example_io 20 21)
        (snd (check_pending_forms ''GET'' (example_io 10 11)
           [example_job 1 7 9 Pending, example_job 2 8 15 Pending])))) = [2]
   \<and> set (listed_ids (fst (check_pending_forms ''GET'' (example_io 20 21)
        (snd (check_pending_forms ''GET'' (example_io 10 11)
           [example_job 1 7 9 Pending, example_job 2 8 15 Pending])))))
        \<inter> set (listed_ids (fst (check_pending_forms ''GET'' (example_io 10 11)
           [example_job 1 7 9 Pending, example_job 2 8 15 Pending]))) = {}
   \<and> (0::nat) \<noteq> 1
   \<and> select_error (example_io 10 (11 + int 0)) = None
   \<and> select_error (example_io 10 (11 + int 1)) = None
   \<and> \<not> update_fails (example_io 10 (11 + int 0))
   \<and> \<not> update_fails (example_io 10 (11 + int 1))
   \<and> snd (run (\<lambda>p. example_io 10 (11 + int p)) [ReadBy 0, ReadBy 1, WriteBy 0, WriteBy 1]
          (Map.empty, [example_job 1 7 9 Pending, example_job 2 8 15 Pending]))
       = [(example_job 1 7 9 Pending)\<lparr>status := Processing, updated_at_fs := Some 12\<rparr>,
          example_job 2 8 15 Pending]"
  using claims_exclusive_without_overlap
    [where ea = "example_io 10 11" and ma = "''GET''" and eb = "example_io 20 21"
       and mb = "''GET''" and s = "[example_job 1 7 9 Pending, example_job 2 8 15 Pending]"
       and p = 0 and q = 1 and ios = "\<lambda>p. example_io 10 (11 + int p)" and loc = Map.empty]
  by (simp add: listed_ids_cycle cycle_store select_pending_eq example_job_def example_io_def)

section \<open>Completed and failed jobs (claim C3)\<close>

text \<open>
  C3, as the spec states it: no operation of the scheduling code changes the status of a
  completed job again. The update of the handler does not look at the status. Run 0
  reads job 1 while it is pending; run 1 reads and claims it, and the job is then
  reported completed; the update of run 0 arrives last and sets the status back to
  processing.
\<close>

theorem overlapping_update_reopens_completed:
  "map status (snd (run (\<lambda>p. example_io 10 (11 + int p))
       [ReadBy 0, ReadBy 1, WriteBy 1, StatusUpdate ServiceRole 1 Completed 20]
       (Map.empty, [example_job 1 7 9 Pending]))) = [Completed]
   \<and> map status (snd (run (\<lambda>p. example_io 10 (11 + int p))
       [ReadBy 0, ReadBy 1, WriteBy 1, StatusUpdate ServiceRole 1 Completed 20, WriteBy 0]
       (Map.empty, [example_job 1 7 9 Pending]))) = [Processing]"
  by (simp add: read_phase_def write_phase_eq select_pending_eq update_rows_def passes_rls_def
      handle_updated_at_def example_job_def example_io_def)

text \<open>
  C3, amended: runs of the handler that do not overlap another writer never touch a job
  that is completed or failed. In a table with distinct ids, through any number of such
  runs the row stays in the table as it is, it is the only row with its id, and no later
  run lists the job.
\<close>

theorem terminal_rows_kept_by_cycles:
  assumes "distinct (map id_fs s)" and "r \<in> set s"
    and "status r = Completed \<or> status r = Failed"
  shows "r \<in> set (run_cycles cs s)
         \<and> (\<forall>r' \<in> set (run_cycles cs s). id_fs r' = id_fs r \<longrightarrow> r' = r)
         \<and> id_fs r \<notin> set (listed_ids (fst (check_pending_forms m e (run_cycles cs s))))"
proof -
  from assms(3) have np: "status r \<noteq> Pending" by auto
  have d: "distinct (map id_fs (run_cycles cs s))"
    using assms(1) by (simp add: run_cycles_ids)
  have kept: "r \<in> set (run_cycles cs s)"
    using assms(1,2) np by (rule run_cycles_keeps_non_pending)
  have only: "r' = r" if "r' \<in> set (run_cycles cs s)" and "id_fs r' = id_fs r" for r'
    using d kept that by (rule same_id_same_row)
  have "id_fs r \<notin> id_fs ` set (select_pending (now e) (run_cycles cs s))"
  proof
    assume "id_fs r \<in> id_fs ` set (select_pending (now e) (run_cycles cs s))"
    then obtain r' where "r' \<in> set (run_cycles cs s)" "status r' = Pending" "id_fs r' = id_fs r"
      by (auto simp add: select_pending_eq)
    with only np show False by auto
  qed
  then have "id_fs r \<notin> set (listed_ids (fst (check_pending_forms m e (run_cycles cs s))))"
    by (simp add: listed_ids_cycle)
  with kept only show ?thesis by blast
qed

theorem terminal_rows_kept_by_cycles_witness:
  "distinct (map id_fs [example_job 1 7 9 Completed, example_job 2 8 3 Pending])
   \<and> example_job 1 7 9 Completed \<in> set [example_job 1 7 9 Completed, example_job 2 8 3 Pending]
   \<and> status (example_job 1 7 9 Completed) = Completed
   \<and> run_cycles [(''GET'', example_io 10 11)]
         [example_job 1 7 9 Completed, example_job 2 8 3 Pending]
       = [example_job 1 7 9 Completed,
          (example_job 2 8 3 Pending)\<lparr>status := Processing, updated_at_fs := Some 11\<rparr>]
   \<and> example_job 1 7 9 Completed
         \<in> set (run_cycles [(''GET'', example_io 10 11)]
                 [example_job 1 7 9 Completed, example_job 2 8 3 Pending])
   \<and> id_fs (example_job 1 7 9 Completed)
         \<notin> set (listed_ids (fst (check_pending_forms ''GET'' (example_io 20 21)
             (run_cycles [(''GET'', example_io 10 11)]
                 [example_job 1 7 9 Completed, example_job 2 8 3 Pending]))))"
  using terminal_rows_kept_by_cycles
    [where s = "[example_job 1 7 9 Completed, example_job 2 8 3 Pending]"
       and r = "example_job 1 7 9 Completed" and cs = "[(''GET'', example_io 10 11)]"
       and m = "''GET''" and e = "example_io 20 21"]
  by (simp add: cycle_store listed_ids_cycle select_pending_eq example_job_def example_io_def)

section \<open>No attempt counter (claim C4)\<close>

text \<open>
  C4 speaks of an \<open>attempt_count\<close> that every claim increments and that a configured
  maximum bounds, after which the job can only end as failed. The table has no such
  column and the code no such maximum. Job 1 is claimed by three runs in turn (it is set
  back to pending in between) and then reported completed: every response lists it, and
  after the third claim, as at the end, the row differs from the original one only in
  \<open>status\<close> and \<open>updated_at\<close>.
\<close>

theorem three_claims_leave_no_count:
  "snd (run (\<lambda>p. example_io (10 + 20 * int p) (11 + 20 * int p))
       [ReadBy 0, WriteBy 0, StatusUpdate ServiceRole 1 Pending 20,
        ReadBy 1, WriteBy 1, StatusUpdate ServiceRole 1 Pending 40,
        ReadBy 2, WriteBy 2]
       (Map.empty, [example_job 1 7 9 Pending]))
     = [(example_job 1 7 9 Pending)\<lparr>status := Processing, updated_at_fs := Some 51\<rparr>]
   \<and> snd (run (\<lambda>p. example_io (10 + 20 * int p) (11 + 20 * int p))
       [ReadBy 0, WriteBy 0, StatusUpdate ServiceRole 1 Pending 20,
        ReadBy 1, WriteBy 1, StatusUpdate ServiceRole 1 Pending 40,
        ReadBy 2, WriteBy 2, StatusUpdate ServiceRole 1 Completed 60]
       (Map.empty, [example_job 1 7 9 Pending]))
     = [(example_job 1 7 9 Pending)\<lparr>status := Completed, updated_at_fs := Some 60\<rparr>]
   \<and> map (\<lambda>p. map_option listed_ids (response_of (fst
        (run (\<lambda>p. example_io (10 + 20 * int p) (11 + 20 * int p))
           [ReadBy 0, WriteBy 0, StatusUpdate ServiceRole 1 Pending 20,
            ReadBy 1, WriteBy 1, StatusUpdate ServiceRole 1 Pending 40,
            ReadBy 2, WriteBy 2, StatusUpdate ServiceRole 1 Completed 60]
           (Map.empty, [example_job 1 7 9 Pending]))) p)) [0, 1, 2]
     = [Some [1], Some [1], Some [1]]"
  by (simp add: read_phase_def write_phase_eq select_pending_eq update_rows_def passes_rls_def
      handle_updated_at_def response_of_def listed_ids_def ok_response_def
      example_job_def example_io_def)

lemma cycle_frame:
  "length (snd (check_pending_forms m e s)) = length s"
  "i < length s \<Longrightarrow>
     snd (check_pending_forms m e s) ! i = s ! i
     \<or> snd (check_pending_forms m e s) ! i
          = (s ! i)\<lparr>status := Processing, updated_at_fs := Some (update_time e)\<rparr>"
  by (simp_all add: cycle_store)

lemma write_phase_frame:
  "length (write_phase e pf s) = length s"
  "i < length s \<Longrightarrow>
     write_phase e pf s ! i = s ! i
     \<or> write_phase e pf s ! i
          = (s ! i)\<lparr>status := Processing, updated_at_fs := Some (update_time e)\<rparr>"
  by (cases pf; simp add: write_phase_eq; simp add: write_phase_def)+

lemma exec_frame:
  assumes "handler_event ev"
  shows "length (snd (exec ios ev (loc, s))) = length s"
    and "i < length s \<Longrightarrow>
           snd (exec ios ev (loc, s)) ! i = s ! i
           \<or> (\<exists>t. snd (exec ios ev (loc, s)) ! i
                 = (s ! i)\<lparr>status := Processing, updated_at_fs := Some t\<rparr>)"
proof -
  show "length (snd (exec ios ev (loc, s))) = length s"
    using assms
    by (cases ev) (simp_all add: write_phase_frame(1) split: prod.splits option.splits)
  show "snd (exec ios ev (loc, s)) ! i = s ! i
           \<or> (\<exists>t. snd (exec ios ev (loc, s)) ! i
                 = (s ! i)\<lparr>status := Processing, updated_at_fs := Some t\<rparr>)"
    if i: "i < length s"
  proof (cases ev)
    case (ReadBy p)
    then show ?thesis by (simp split: prod.splits option.splits)
  next
    case (WriteBy p)
    show ?thesis
    proof (cases "loc p")
      case None
      with WriteBy show ?thesis by simp
    next
      case (Some pf)
      with WriteBy write_phase_frame(2) [OF i, of "ios p" pf] show ?thesis by auto
    qed
  next
    case (StatusUpdate c j st t)
    with assms show ?thesis by simp
  qed
qed

lemma run_frame:
  assumes "list_all handler_event evs"
  shows "length (snd (run ios evs (loc, s))) = length s
         \<and> (\<forall>i < length s.
               snd (run ios evs (loc, s)) ! i = s ! i
               \<or> (\<exists>t. snd (run ios evs (loc, s)) ! i
                     = (s ! i)\<lparr>status := Processing, updated_at_fs := Some t\<rparr>))"
  using assms
proof (induction evs arbitrary: loc s)
  case Nil
  then show ?case by simp
next
  case (Cons ev evs)
  obtain loc1 s1 where ex: "exec ios ev (loc, s) = (loc1, s1)" by (cases "exec ios ev (loc, s)")
  from Cons.prems have hev: "handler_event ev" and rest: "list_all handler_event evs" by simp_all
  have len: "length s1 = length s"
    using exec_frame(1) [OF hev, of ios loc s] ex by simp
  note IH = Cons.IH [OF rest, of loc1 s1]
  have step: "run ios (ev # evs) (loc, s) = run ios evs (loc1, s1)" by (simp add: ex)
  have "snd (run ios evs (loc1, s1)) ! i = s ! i
               \<or> (\<exists>t. snd (run ios evs (loc1, s1)) ! i
                     = (s ! i)\<lparr>status := Processing, updated_at_fs := Some t\<rparr>)"
    if i: "i < length s" for i
  proof -
    from i len have i1: "i < length s1" by simp
    from exec_frame(2) [OF hev i, of ios loc] ex
    have first: "s1 ! i = s ! i \<or> (\<exists>t. s1 ! i = (s ! i)\<lparr>status := Processing, updated_at_fs := Some t\<rparr>)"
      by simp
    from IH i1
    consider "snd (run ios evs (loc1, s1)) ! i = s1 ! i"
      | t where "snd (run ios evs (loc1, s1)) ! i = (s1 ! i)\<lparr>status := Processing, updated_at_fs := Some t\<rparr>"
      by blast
    then show ?thesis
    proof cases
      case 1
      with first show ?thesis by auto
    next
      case 2
      with first show ?thesis by auto
    qed
  qed
  with len IH show ?case unfolding step by simp
qed

lemma run_cycles_frame:
  "length (run_cycles cs s) = length s
   \<and> (\<forall>i < length s.
         run_cycles cs s ! i = s ! i
         \<or> (\<exists>t. run_cycles cs s ! i = (s ! i)\<lparr>status := Processing, updated_at_fs := Some t\<rparr>))"
proof (induction cs arbitrary: s)
  case Nil
  then show ?case by simp
next
  case (Cons c cs)
  obtain m e where c: "c = (m, e)" by (cases c)
  let ?s1 = "snd (check_pending_forms m e s)"
  have len: "length ?s1 = length s" by (rule cycle_frame(1))
  have step: "run_cycles (c # cs) s = run_cycles cs ?s1" by (simp add: c)
  have "run_cycles cs ?s1 ! i = s ! i
         \<or> (\<exists>t. run_cycles cs ?s1 ! i = (s ! i)\<lparr>status := Processing, updated_at_fs := Some t\<rparr>)"
    if i: "i < length s" for i
  proof -
    from i len have i1: "i < length ?s1" by simp
    from Cons.IH [of ?s1] i1
    consider "run_cycles cs ?s1 ! i = ?s1 ! i"
      | t where "run_cycles cs ?s1 ! i = (?s1 ! i)\<lparr>status := Processing, updated_at_fs := Some t\<rparr>"
      by blast
    then show ?thesis
    proof cases
      case 1
      with cycle_frame(2) [OF i, of m e] show ?thesis by auto
    next
      case 2
      with cycle_frame(2) [OF i, of m e] show ?thesis by auto
    qed
  qed
  with len Cons.IH [of ?s1] show ?case unfolding step by simp
qed

text \<open>
  C4, amended: the rows carry no attempt counter and nothing bounds the number of claims.
  Through any sequence of runs of the handler, one after the other or overlapping, each
  row of the table is either as it was or as it was with \<open>status\<close> set to processing
  and \<open>updated_at\<close> set to an update time: no other column changes, nothing is
  incremented, and no run sets the status failed.
\<close>

theorem cycles_change_only_status_and_updated_at:
  "length (run_cycles cs s) = length s
   \<and> (\<forall>i < length s.
         run_cycles cs s ! i = s ! i
         \<or> (\<exists>t. run_cycles cs s ! i = (s ! i)\<lparr>status := Processing, updated_at_fs := Some t\<rparr>))
   \<and> (list_all handler_event evs \<longrightarrow>
         length (snd (run ios evs (loc, s))) = length s
         \<and> (\<forall>i < length s.
               snd (run ios evs (loc, s)) ! i = s ! i
               \<or> (\<exists>t. snd (run ios evs (loc, s)) ! i
                     = (s ! i)\<lparr>status := Processing, updated_at_fs := Some t\<rparr>)))"
  using run_cycles_frame [of cs s] run_frame [of evs ios loc s] by (intro conjI impI) simp_all

theorem cycles_change_only_status_and_updated_at_witness:
  "(0::nat) < length [example_job 1 7 9 Pending, example_job 2 8 3 Failed]
   \<and> (1::nat) < length [example_job 1 7 9 Pending, example_job 2 8 3 Failed]
   \<and> run_cycles [(''GET'', example_io 10 11), (''GET'', example_io 20 21)]
        [example_job 1 7 9 Pending, example_job 2 8 3 Failed]
       = [(example_job 1 7 9 Pending)\<lparr>status := Processing, updated_at_fs := Some 11\<rparr>,
          example_job 2 8 3 Failed]
   \<and> list_all handler_event [ReadBy 0, ReadBy 1, WriteBy 0, WriteBy 1]
   \<and> snd (run (\<lambda>p. example_io 10 (11 + int p)) [ReadBy 0, ReadBy 1, WriteBy 0, WriteBy 1]
          (Map.empty, [example_job 1 7 9 Pending, example_job 2 8 3 Failed]))
       = [(example_job 1 7 9 Pending)\<lparr>status := Processing, updated_at_fs := Some 12\<rparr>,
          example_job 2 8 3 Failed]"
  using cycles_change_only_status_and_updated_at
    [where cs = "[(''GET'', example_io 10 11), (''GET'', example_io 20 21)]"
       and s = "[example_job 1 7 9 Pending, example_job 2 8 3 Failed]"
       and evs = "[ReadBy 0, ReadBy 1, WriteBy 0, WriteBy 1]"
       and ios = "\<lambda>p. example_io 10 (11 + int p)" and loc = Map.empty]
  by (simp add: cycle_store read_phase_def write_phase_eq select_pending_eq
      example_job_def example_io_def)

section \<open>No reconciler (claim C5)\<close>

text \<open>
  C5 describes \<open>reconcileOnce\<close>, which returns a claimed job to pending once its lease
  has expired. The rows have no \<open>claim_token\<close> or \<open>claim_deadline\<close>, and the code has
  no such operation: a job claimed at time 0 and never reported on is still processing,
  its row untouched, after runs of the handler at times 100, 1000 and 100000, and no run
  lists it.
\<close>

theorem stale_processing_row_stays:
  "run_cycles [(''GET'', example_io 100 101), (''GET'', example_io 1000 1001),
               (''GET'', example_io 100000 100001)] [example_job 1 7 9 Processing]
     = [example_job 1 7 9 Processing]
   \<and> listed_ids (fst (check_pending_forms ''GET'' (example_io 100000 100001)
        [example_job 1 7 9 Processing])) = []"
  by (simp add: cycle_store listed_ids_cycle select_pending_eq example_job_def example_io_def)

lemma run_keeps_processing:
  assumes "list_all handler_event evs" and "i < length s" and "status (s ! i) = Processing"
  shows "status (snd (run ios evs (loc, s)) ! i) = Processing"
proof -
  from run_frame [OF assms(1), of ios loc s] assms(2)
  consider "snd (run ios evs (loc, s)) ! i = s ! i"
    | t where "snd (run ios evs (loc, s)) ! i
                 = (s ! i)\<lparr>status := Processing, updated_at_fs := Some t\<rparr>"
    by blast
  then show ?thesis
  proof cases
    case 1
    with assms(3) show ?thesis by simp
  next
    case 2
    then show ?thesis by simp
  qed
qed

text \<open>
  C5, amended: no run of the handler returns a processing job to pending. In a table with
  distinct ids, through any number of runs that do not overlap another writer, a row with
  status processing stays in the table exactly as it is (\<open>updated_at\<close> included), and
  every row with its id is that row, with status processing, and no run lists the job in
  its response. Through any steps of handler runs, overlapping or not, a row with status
  processing keeps that status.
\<close>

theorem processing_rows_never_requeued:
  assumes "distinct (map id_fs s)" and "r \<in> set s" and "status r = Processing"
  shows "r \<in> set (run_cycles cs s)
         \<and> (\<forall>r' \<in> set (run_cycles cs s).
               id_fs r' = id_fs r \<longrightarrow> r' = r \<and> status r' = Processing)
         \<and> id_fs r \<notin> set (listed_ids (fst (check_pending_forms m e (run_cycles cs s))))
         \<and> (list_all handler_event evs \<and> i < length s \<and> status (s ! i) = Processing
               \<longrightarrow> status (snd (run ios evs (loc, s)) ! i) = Processing)"
proof -
  from assms(3) have np: "status r \<noteq> Pending" by simp
  have d: "distinct (map id_fs (run_cycles cs s))"
    using assms(1) by (simp add: run_cycles_ids)
  have kept: "r \<in> set (run_cycles cs s)"
    using assms(1,2) np by (rule run_cycles_keeps_non_pending)
  have only: "r' = r" if "r' \<in> set (run_cycles cs s)" and "id_fs r' = id_fs r" for r'
    using d kept that by (rule same_id_same_row)
  have overlap: "status (snd (run ios evs (loc, s)) ! i) = Processing"
    if "list_all handler_event evs" and "i < length s" and "status (s ! i) = Processing"
    using that by (rule run_keeps_processing)
  have "id_fs r \<notin> id_fs ` set (select_pending (now e) (run_cycles cs s))"
  proof
    assume "id_fs r \<in> id_fs ` set (select_pending (now e) (run_cycles cs s))"
    then obtain r' where "r' \<in> set (run_cycles cs s)" "status r' = Pending" "id_fs r' = id_fs r"
      by (auto simp add: select_pending_eq)
    with only np show False by auto
  qed
  then have unlisted: "id_fs r \<notin> set (listed_ids (fst (check_pending_forms m e (run_cycles cs s))))"
    by (simp add: listed_ids_cycle)
  from kept only assms(3) unlisted overlap show ?thesis by blast
qed

theorem processing_rows_never_requeued_witness:
  "distinct (map id_fs [example_job 1 7 9 Processing, example_job 2 8 3 Pending])
   \<and> example_job 1 7 9 Processing \<in> set [example_job 1 7 9 Processing, example_job 2 8 3 Pending]
   \<and> status (example_job 1 7 9 Processing) = Processing
   \<and> example_job 1 7 9 Processing
        \<in> set (run_cycles [(''GET'', example_io 100 101), (''GET'', example_io 1000 1001)]
                 [example_job 1 7 9 Processing, example_job 2 8 3 Pending])
   \<and> run_cycles [(''GET'', example_io 100 101), (''GET'', example_io 1000 1001)]
         [example_job 1 7 9 Processing, example_job 2 8 3 Pending]
       = [example_job 1 7 9 Processing,
          (example_job 2 8 3 Pending)\<lparr>status := Processing, updated_at_fs := Some 101\<rparr>]
   \<and> listed_ids (fst (check_pending_forms ''GET'' (example_io 2000 2001)
         (run_cycles [(''GET'', example_io 100 101), (''GET'', example_io 1000 1001)]
            [example_job 1 7 9 Processing, example_job 2 8 3 Pending]))) = []
   \<and> id_fs (example_job 1 7 9 Processing)
        \<notin> set (listed_ids (fst (check_pending_forms ''GET'' (example_io 100 101)
             (run_cycles [] [example_job 1 7 9 Processing, example_job 2 8 3 Pending]))))
   \<and> listed_ids (fst (check_pending_forms ''GET'' (example_io 100 101)
         (run_cycles [] [example_job 1 7 9 Processing, example_job 2 8 3 Pending]))) = [2]
   \<and> list_all handler_event [ReadBy 0, ReadBy 1, WriteBy 0, WriteBy 1]
   \<and> (0::nat) < length [example_job 1 7 9 Processing, example_job 2 8 3 Pending]
   \<and> status ([example_job 1 7 9 Processing, example_job 2 8 3 Pending] ! 0) = Processing
   \<and> status (snd (run (\<lambda>p. example_io 100 (101 + int p))
                    [ReadBy 0, ReadBy 1, WriteBy 0, WriteBy 1]
                    (Map.empty, [example_job 1 7 9 Processing, example_job 2 8 3 Pending])) ! 0)
       = Processing"
  using processing_rows_never_requeued
    [where s = "[example_job 1 7 9 Processing, example_job 2 8 3 Pending]"
       and r = "example_job 1 7 9 Processing"
       and cs = "[(''GET'', example_io 100 101), (''GET'', example_io 1000 1001)]"
       and m = "''GET''" and e = "example_io 2000 2001"
       and evs = "[ReadBy 0, ReadBy 1, WriteBy 0, WriteBy 1]" and i = 0
       and ios = "\<lambda>p. example_io 100 (101 + int p)" and loc = Map.empty]
  by (simp add: cycle_store listed_ids_cycle read_phase_def write_phase_eq select_pending_eq
      example_job_def example_io_def)

section \<open>No batch limit (claim C6)\<close>

text \<open>
  C6 gives the claim cycle a \<open>limit\<close> and has it return only the jobs it claimed. The
  handler takes no limit and its select has none: with three due jobs in the table, one
  run lists and claims all three, whatever smaller limit one has in mind.
\<close>

theorem cycle_has_no_limit:
  "body (fst (check_pending_forms ''GET'' (example_io 10 11)
      [example_job 1 7 9 Pending, example_job 2 8 3 Pending, example_job 3 8 5 Pending]))
     = SuccessBody
         [example_job 1 7 9 Pending, example_job 2 8 3 Pending, example_job 3 8 5 Pending] 3
   \<and> map status (snd (check_pending_forms ''GET'' (example_io 10 11)
      [example_job 1 7 9 Pending, example_job 2 8 3 Pending, example_job 3 8 5 Pending]))
     = [Processing, Processing, Processing]"
  by (simp add: cycle_response cycle_store ok_response_def select_pending_eq
      example_job_def example_io_def)

lemma all_due_listed:
  "select_pending n (map (\<lambda>i. example_job i u n Pending) xs)
     = map (\<lambda>i. example_job i u n Pending) xs"
  by (induction xs) (simp_all add: select_pending_eq example_job_def)

text \<open>
  C6, amended: one run of the handler (not a preflight, the store answering both
  requests) selects every due job, however many there are: the response lists exactly the
  due pending rows and counts them, the store afterwards holds every row with a listed id
  as processing and every other row unchanged, and for every \<open>k\<close> a table of \<open>k\<close> due
  jobs yields a response of \<open>k\<close> jobs.
\<close>

theorem cycle_lists_every_due_row:
  assumes "m \<noteq> ''OPTIONS''" and "select_error e = None" and "\<not> update_fails e"
  shows "body (fst (check_pending_forms m e s))
           = SuccessBody (select_pending (now e) s)
               (length (filter (\<lambda>r. status r = Pending \<and> scheduled_time r \<le> now e) s))
         \<and> snd (check_pending_forms m e s)
           = map (\<lambda>r. if id_fs r \<in> set (listed_ids (fst (check_pending_forms m e s)))
                       then r\<lparr>status := Processing, updated_at_fs := Some (update_time e)\<rparr>
                       else r) s
         \<and> (\<forall>k. count (body (fst (check_pending_forms m e
                     (map (\<lambda>i. example_job i u (now e) Pending) [0..<k])))) = k)"
proof -
  have a: "body (fst (check_pending_forms m e s))
           = SuccessBody (select_pending (now e) s)
               (length (filter (\<lambda>r. status r = Pending \<and> scheduled_time r \<le> now e) s))"
    using assms by (simp add: cycle_response ok_response_def select_pending_eq)
  have b: "snd (check_pending_forms m e s)
           = map (\<lambda>r. if id_fs r \<in> set (listed_ids (fst (check_pending_forms m e s)))
                       then r\<lparr>status := Processing, updated_at_fs := Some (update_time e)\<rparr>
                       else r) s"
    using assms by (simp add: cycle_store listed_ids_cycle)
  have c: "count (body (fst (check_pending_forms m e
                     (map (\<lambda>i. example_job i u (now e) Pending) [0..<k])))) = k" for k
    using assms by (simp add: cycle_response ok_response_def all_due_listed)
  from a b c show ?thesis by simp
qed

theorem cycle_lists_every_due_row_witness:
  "''GET'' \<noteq> ''OPTIONS'' \<and> select_error (example_io 10 11) = None
   \<and> \<not> update_fails (example_io 10 11)
   \<and> body (fst (check_pending_forms ''GET'' (example_io 10 11)
        [example_job 1 7 9 Pending, example_job 2 8 30 Pending, example_job 3 8 5 Pending]))
       = SuccessBody [example_job 1 7 9 Pending, example_job 3 8 5 Pending] 2
   \<and> snd (check_pending_forms ''GET'' (example_io 10 11)
        [example_job 1 7 9 Pending, example_job 2 8 30 Pending, example_job 3 8 5 Pending])
       = [(example_job 1 7 9 Pending)\<lparr>status := Processing, updated_at_fs := Some 11\<rparr>,
          example_job 2 8 30 Pending,
          (example_job 3 8 5 Pending)\<lparr>status := Processing, updated_at_fs := Some 11\<rparr>]"
  using cycle_lists_every_due_row
    [where m = "''GET''" and e = "example_io 10 11" and u = 7
       and s = "[example_job 1 7 9 Pending, example_job 2 8 30 Pending, example_job 3 8 5 Pending]"]
  by (simp add: cycle_store listed_ids_cycle select_pending_eq example_job_def example_io_def)

section \<open>Row-level security (claim C8)\<close>







section \<open>The signup trigger (claim C10)\<close>

lemma default_checks:
  "''Baker College'' \<in> set COLLEGES" "''Freshman'' \<in> set YEARS"
  by (simp_all add: COLLEGES_def YEARS_def)

text \<open>
  C10: when the trigger goes through for a new auth user, the profiles table has exactly
  one row more, the row built from the user, and that row satisfies the college and year
  CHECK constraints. The row takes each of \<open>full_name\<close>, \<open>college\<close> and \<open>year\<close> from
  the metadata, and the empty string, 'Baker College' and 'Freshman' where the key is
  missing. When college and year are missing (and the user has an email and a fresh id)
  the trigger does go through; so it does for a sign-up through the Auth page, which
  supplies no metadata, and the row then holds the three defaults.
\<close>

theorem handle_new_user_defaults:
  "(\<forall>ps. handle_new_user t new profiles = Inr ps \<longrightarrow>
       (\<exists>em. email_au new = Some em \<and> ps = profiles @ [new_profile_row t new em]
             \<and> college_check (new_profile_row t new em)
             \<and> year_check (new_profile_row t new em)))
   \<and> (email_au new = Some em \<and> id_au new \<notin> id_pr ` set profiles
        \<and> json_text (raw_user_meta_data new) ''college'' = None
        \<and> json_text (raw_user_meta_data new) ''year'' = None \<longrightarrow>
        handle_new_user t new profiles = Inr (profiles @ [new_profile_row t new em]))
   \<and> full_name (new_profile_row t new em)
        = (case json_text (raw_user_meta_data new) ''full_name'' of
             None \<Rightarrow> '''' | Some v \<Rightarrow> v)
   \<and> college (new_profile_row t new em)
        = (case json_text (raw_user_meta_data new) ''college'' of
             None \<Rightarrow> ''Baker College'' | Some v \<Rightarrow> v)
   \<and> year (new_profile_row t new em)
        = (case json_text (raw_user_meta_data new) ''year'' of
             None \<Rightarrow> ''Freshman'' | Some v \<Rightarrow> v)
   \<and> id_pr (new_profile_row t new em) = id_au new
   \<and> email (new_profile_row t new em) = em
   \<and> (i \<notin> id_pr ` set profiles \<longrightarrow>
        handle_new_user t (signUp_user i em) profiles
          = Inr (profiles @
                 [\<lparr>id_pr = i, email = em, full_name = '''', college = ''Baker College'',
                   year = ''Freshman'', created_at_pr = Some t, updated_at_pr = Some t\<rparr>]))"
proof -
  have a: "\<exists>em. email_au new = Some em \<and> ps = profiles @ [new_profile_row t new em]
             \<and> college_check (new_profile_row t new em) \<and> year_check (new_profile_row t new em)"
    if "handle_new_user t new profiles = Inr ps" for ps
    using that by (auto simp add: handle_new_user_def Let_def split: option.splits if_splits)
  have b: "handle_new_user t new profiles = Inr (profiles @ [new_profile_row t new em])"
    if "email_au new = Some em" and "id_au new \<notin> id_pr ` set profiles"
      and "json_text (raw_user_meta_data new) ''college'' = None"
      and "json_text (raw_user_meta_data new) ''year'' = None"
    using that default_checks
    by (simp add: handle_new_user_def Let_def college_check_def year_check_def
        new_profile_row_def COALESCE_def)
  have c: "full_name (new_profile_row t new em)
        = (case json_text (raw_user_meta_data new) ''full_name'' of
             None \<Rightarrow> '''' | Some v \<Rightarrow> v)"
    "college (new_profile_row t new em)
        = (case json_text (raw_user_meta_data new) ''college'' of
             None \<Rightarrow> ''Baker College'' | Some v \<Rightarrow> v)"
    "year (new_profile_row t new em)
        = (case json_text (raw_user_meta_data new) ''year'' of
             None \<Rightarrow> ''Freshman'' | Some v \<Rightarrow> v)"
    "id_pr (new_profile_row t new em) = id_au new" "email (new_profile_row t new em) = em"
    by (simp_all add: new_profile_row_def COALESCE_def)
  have d: "handle_new_user t (signUp_user i em) profiles
          = Inr (profiles @
                 [\<lparr>id_pr = i, email = em, full_name = '''', college = ''Baker College'',
                   year = ''Freshman'', created_at_pr = Some t, updated_at_pr = Some t\<rparr>])"
    if "i \<notin> id_pr ` set profiles"
    using that default_checks
    by (simp add: handle_new_user_def Let_def college_check_def year_check_def
        new_profile_row_def COALESCE_def signUp_user_def json_text_def)
  have A: "\<forall>ps. handle_new_user t new profiles = Inr ps \<longrightarrow>
       (\<exists>em. email_au new = Some em \<and> ps = profiles @ [new_profile_row t new em]
             \<and> college_check (new_profile_row t new em)
             \<and> year_check (new_profile_row t new em))"
    by (intro allI impI) (rule a)
  have B: "email_au new = Some em \<and> id_au new \<notin> id_pr ` set profiles
        \<and> json_text (raw_user_meta_data new) ''college'' = None
        \<and> json_text (raw_user_meta_data new) ''year'' = None \<longrightarrow>
        handle_new_user t new profiles = Inr (profiles @ [new_profile_row t new em])"
  proof (rule impI)
    assume h: "email_au new = Some em \<and> id_au new \<notin> id_pr ` set profiles
        \<and> json_text (raw_user_meta_data new) ''college'' = None
        \<and> json_text (raw_user_meta_data new) ''year'' = None"
    show "handle_new_user t new profiles = Inr (profiles @ [new_profile_row t new em])"
      by (rule b) (use h in simp_all)
  qed
  have D: "i \<notin> id_pr ` set profiles \<longrightarrow>
        handle_new_user t (signUp_user i em) profiles
          = Inr (profiles @
                 [\<lparr>id_pr = i, email = em, full_name = '''', college = ''Baker College'',
                   year = ''Freshman'', created_at_pr = Some t, updated_at_pr = Some t\<rparr>])"
    by (rule impI) (rule d)
  show ?thesis
    using A B c D by (intro conjI)
qed

theorem handle_new_user_defaults_witness:
  "email_au (signUp_user 3 ''ab1@rice.edu'') = Some ''ab1@rice.edu''
   \<and> id_au (signUp_user 3 ''ab1@rice.edu'') \<notin> id_pr ` set []
   \<and> json_text (raw_user_meta_data (signUp_user 3 ''ab1@rice.edu'')) ''college'' = None
   \<and> json_text (raw_user_meta_data (signUp_user 3 ''ab1@rice.edu'')) ''year'' = None
   \<and> handle_new_user 5 (signUp_user 3 ''ab1@rice.edu'') []
       = Inr [\<lparr>id_pr = 3, email = ''ab1@rice.edu'', full_name = '''',
               college = ''Baker College'', year = ''Freshman'',
               created_at_pr = Some 5, updated_at_pr = Some 5\<rparr>]
   \<and> college_check (new_profile_row 5 (signUp_user 3 ''ab1@rice.edu'') ''ab1@rice.edu'')
   \<and> year_check (new_profile_row 5 (signUp_user 3 ''ab1@rice.edu'') ''ab1@rice.edu'')"
proof -
  note th = handle_new_user_defaults
    [where t = 5 and new = "signUp_user 3 ''ab1@rice.edu''" and profiles = "[]"
       and em = "''ab1@rice.edu''" and i = 3]
  have h: "email_au (signUp_user 3 ''ab1@rice.edu'') = Some ''ab1@rice.edu''"
    "id_au (signUp_user 3 ''ab1@rice.edu'') \<notin> id_pr ` set []"
    "json_text (raw_user_meta_data (signUp_user 3 ''ab1@rice.edu'')) ''college'' = None"
    "json_text (raw_user_meta_data (signUp_user 3 ''ab1@rice.edu'')) ''year'' = None"
    by (simp_all add: signUp_user_def json_text_def)
  have ran: "handle_new_user 5 (signUp_user 3 ''ab1@rice.edu'') []
      = Inr ([] @ [new_profile_row 5 (signUp_user 3 ''ab1@rice.edu'') ''ab1@rice.edu''])"
    using th [THEN conjunct2, THEN conjunct1] by (rule mp) (intro conjI h)
  have row: "new_profile_row 5 (signUp_user 3 ''ab1@rice.edu'') ''ab1@rice.edu''
      = \<lparr>id_pr = 3, email = ''ab1@rice.edu'', full_name = '''',
         college = ''Baker College'', year = ''Freshman'',
         created_at_pr = Some 5, updated_at_pr = Some 5\<rparr>"
    by (simp add: new_profile_row_def signUp_user_def COALESCE_def json_text_def)
  have chk: "college_check (new_profile_row 5 (signUp_user 3 ''ab1@rice.edu'') ''ab1@rice.edu'')"
    "year_check (new_profile_row 5 (signUp_user 3 ''ab1@rice.edu'') ''ab1@rice.edu'')"
    unfolding row using default_checks by (simp_all add: college_check_def year_check_def)
  from ran have ran': "handle_new_user 5 (signUp_user 3 ''ab1@rice.edu'') []
       = Inr [\<lparr>id_pr = 3, email = ''ab1@rice.edu'', full_name = '''',
               college = ''Baker College'', year = ''Freshman'',
               created_at_pr = Some 5, updated_at_pr = Some 5\<rparr>]"
    unfolding row by (simp only: append_Nil)
  from h ran' chk show ?thesis by (intro conjI)
qed

end
